theory Spec2Isabelle
  imports Main "HOL-Library.Word"
begin

unbundle bit_operations_syntax

section \<open>Go values used by the drive item code\<close>

type_synonym byte = "8 word"
type_synonym uint32 = "32 word"
type_synonym uint64 = "64 word"
type_synonym int64 = "64 word"

text \<open>
  Go's \<open>int\<close> is taken to be 64 bits wide (amd64, arm64).  Values of \<open>int\<close> and \<open>int64\<close>
  are read as mathematical integers; \<open>wrap64\<close> is the two's complement wrap-around that
  every \<open>int\<close> addition and subtraction of the source performs.
\<close>

definition wrap64 :: "int \<Rightarrow> int" where
  "wrap64 x = (x + 2 ^ 63) mod 2 ^ 64 - 2 ^ 63"

text \<open>A run-time panic of the Go program: the call does not return.\<close>

datatype fault = NilDereference | SliceBoundsOutOfRange | IndexOutOfRange

text \<open>A Go \<open>error\<close> value (only its presence matters to the code).\<close>

datatype err = Err string

text \<open>The \<open>fuse.Status\<close> codes the code returns.\<close>

datatype Status = OK | ENOENT | EPERM | EREMOTEIO

text \<open>
  A \<open>[]byte\<close>: the elements up to its length, and the rest of its backing array up to
  its capacity.  A slice expression may reach into the spare part; that part is what
  decides whether \<open>s[:n]\<close> with \<open>n > len(s)\<close> panics.
\<close>

datatype bytes = Slice (elems: "byte list") (spare: "byte list")

definition len :: "bytes \<Rightarrow> nat" where
  "len s = length (elems s)"

definition cap :: "bytes \<Rightarrow> nat" where
  "cap s = length (elems s) + length (spare s)"

definition nil_bytes :: bytes where
  "nil_bytes = Slice [] []"

text \<open>\<open>s[low:high]\<close> on a slice: panics unless \<open>0 \<le> low \<le> high \<le> cap(s)\<close>.\<close>

definition slice_expr :: "bytes \<Rightarrow> int \<Rightarrow> int \<Rightarrow> fault + bytes" where
  "slice_expr s low high =
     (if 0 \<le> low \<and> low \<le> high \<and> high \<le> int (cap s)
      then Inr (Slice (take (nat high - nat low) (drop (nat low) (elems s @ spare s)))
                      (drop (nat high) (elems s @ spare s)))
      else Inl SliceBoundsOutOfRange)"

text \<open>
  \<open>append(s, xs...)\<close>: writes into the spare capacity when \<open>xs\<close> fits, otherwise moves to
  a fresh array.  How much room the runtime leaves in a fresh array is not fixed by the
  language; it is the parameter \<open>room\<close>.
\<close>

definition append_bytes :: "nat \<Rightarrow> bytes \<Rightarrow> byte list \<Rightarrow> bytes" where
  "append_bytes room s xs =
     (if length xs \<le> length (spare s)
      then Slice (elems s @ xs) (drop (length xs) (spare s))
      else Slice (elems s @ xs) (replicate room 0))"

text \<open>
  \<open>copy(dst, src)\<close> where \<open>dst\<close> is \<open>s[offset:]\<close>: overwrites
  \<open>min(len(s) - offset, len(src))\<close> elements of \<open>s\<close> from \<open>offset\<close> on, in place.
  \<open>s[offset:]\<close> panics unless \<open>0 \<le> offset \<le> len(s)\<close>.
\<close>

definition copy_at :: "bytes \<Rightarrow> int \<Rightarrow> byte list \<Rightarrow> fault + bytes" where
  "copy_at s offset src =
     (if 0 \<le> offset \<and> offset \<le> int (len s)
      then let k = min (len s - nat offset) (length src)
           in Inr (Slice (take (nat offset) (elems s) @ take k src @ drop (nat offset + k) (elems s))
                         (spare s))
      else Inl SliceBoundsOutOfRange)"

section \<open>The data model\<close>

text \<open>\<open>time.Time\<close>, as its Unix time in seconds.\<close>

type_synonym time = int

text \<open>
  Modelled from the spec: the \<open>Auth\<close> structure is declared outside the source files.
  The spec calls it the authentication context; the item code only passes it on.
\<close>

datatype Auth = Auth string

text \<open>
  \<open>DriveItemParent\<close>.  Its back pointer \<open>item\<close> is followed by \<open>getRoot\<close> alone and is
  not part of the model.
\<close>

datatype DriveItemParent = DriveItemParent (parentID: string) (parentPath: string)

text \<open>
  \<open>DriveItem\<close>.  Pointer fields are options (\<open>None\<close> is \<open>nil\<close>); \<open>children\<close> is the Go map
  as an association list, \<open>None\<close> for the nil map.  The values of the map are never nil
  in the code (each is dereferenced before it is stored).  The embedded \<open>nodefs.File\<close>
  carries no state of its own.
\<close>

datatype DriveItem = DriveItem
  (auth: "Auth option")
  (data: "bytes option")
  (hasChanges: bool)
  (ID: string)
  (Name: string)
  (Size: uint64)
  (ModifyTime: "time option")
  (mode: uint32)
  (Parent: "DriveItemParent option")
  (children: "(string \<times> DriveItem) list option")
  (Folder: "uint32 option")
  (FileAPI: "string option")

definition set_data :: "bytes option \<Rightarrow> DriveItem \<Rightarrow> DriveItem" where
  "set_data v d = DriveItem (auth d) v (hasChanges d) (ID d) (Name d) (Size d) (ModifyTime d)
     (mode d) (Parent d) (children d) (Folder d) (FileAPI d)"

definition set_hasChanges :: "bool \<Rightarrow> DriveItem \<Rightarrow> DriveItem" where
  "set_hasChanges v d = DriveItem (auth d) (data d) v (ID d) (Name d) (Size d) (ModifyTime d)
     (mode d) (Parent d) (children d) (Folder d) (FileAPI d)"

definition set_Size :: "uint64 \<Rightarrow> DriveItem \<Rightarrow> DriveItem" where
  "set_Size v d = DriveItem (auth d) (data d) (hasChanges d) (ID d) (Name d) v (ModifyTime d)
     (mode d) (Parent d) (children d) (Folder d) (FileAPI d)"

definition set_ModifyTime :: "time option \<Rightarrow> DriveItem \<Rightarrow> DriveItem" where
  "set_ModifyTime v d = DriveItem (auth d) (data d) (hasChanges d) (ID d) (Name d) (Size d) v
     (mode d) (Parent d) (children d) (Folder d) (FileAPI d)"

definition set_children :: "(string \<times> DriveItem) list option \<Rightarrow> DriveItem \<Rightarrow> DriveItem" where
  "set_children v d = DriveItem (auth d) (data d) (hasChanges d) (ID d) (Name d) (Size d)
     (ModifyTime d) (mode d) (Parent d) v (Folder d) (FileAPI d)"

section \<open>Mode and IsDir\<close>

definition S_IFDIR :: uint32 where "S_IFDIR = 0x4000"
definition S_IFREG :: uint32 where "S_IFREG = 0x8000"

text \<open>
  \<open>Mode\<close> returns the mode and stores it in the item it was called on; the first
  component is the returned value, the second the item afterwards.  Octal \<open>0755\<close> is
  \<open>0x1ED\<close> and octal \<open>0644\<close> is \<open>0x1A4\<close>.
\<close>

definition Mode :: "DriveItem \<Rightarrow> uint32 \<times> DriveItem" where
  "Mode d =
     (if mode d = 0
      then let m = (if FileAPI d = None then S_IFDIR OR 0x1ED else S_IFREG OR 0x1A4)
           in (m, DriveItem (auth d) (data d) (hasChanges d) (ID d) (Name d) (Size d)
                    (ModifyTime d) m (Parent d) (children d) (Folder d) (FileAPI d))
      else (mode d, d))"

text \<open>\<open>IsDir\<close> has a value receiver: \<open>Mode\<close> runs on a copy and the item is unchanged.\<close>

definition IsDir :: "DriveItem \<Rightarrow> bool" where
  "IsDir d = (fst (Mode d) AND S_IFDIR > 0)"

section \<open>Read\<close>

text \<open>
  \<open>Read(buf, off)\<close>: only the length of \<open>buf\<close> is used.  The result is the bytes of the
  returned \<open>ReadResultData\<close> and the status.
\<close>

definition Read :: "DriveItem \<Rightarrow> byte list \<Rightarrow> int64 \<Rightarrow> fault + (byte list \<times> Status)" where
  "Read d buf off =
     (case data d of
        None \<Rightarrow> Inl NilDereference
      | Some s \<Rightarrow>
          let end0 = wrap64 (sint off + int (length buf));
              end = (if end0 > int (len s) then int (len s) else end0)
          in (case slice_expr s (sint off) end of
                Inl f \<Rightarrow> Inl f
              | Inr r \<Rightarrow> Inr (elems r, OK)))"

section \<open>Write, Truncate, Utimens\<close>

text \<open>
  \<open>Write(data, off)\<close>.  \<open>int(d.Size)\<close> reinterprets the unsigned size as a signed
  \<open>int\<close>; \<open>uint32(nWrite)\<close> keeps the low 32 bits.  The result is the returned pair and
  the item afterwards.
\<close>

definition Write ::
  "nat \<Rightarrow> DriveItem \<Rightarrow> byte list \<Rightarrow> int64 \<Rightarrow> fault + ((uint32 \<times> Status) \<times> DriveItem)" where
  "Write room d dat off =
     (let nWrite = int (length dat); offset = sint off
      in case data d of
           None \<Rightarrow> Inl NilDereference
         | Some s \<Rightarrow>
             (case (if wrap64 (offset + nWrite) > wrap64 (sint (Size d) - 1)
                    then (case slice_expr s 0 offset of
                            Inl f \<Rightarrow> Inl f
                          | Inr p \<Rightarrow> Inr (append_bytes room p dat))
                    else copy_at s offset dat) of
                Inl f \<Rightarrow> Inl f
              | Inr s' \<Rightarrow>
                  Inr ((word_of_nat (length dat), OK),
                       set_hasChanges True (set_Size (word_of_nat (len s')) (set_data (Some s') d)))))"

text \<open>\<open>Truncate(size)\<close>: \<open>(*d.data)[:size]\<close> panics when \<open>size\<close> exceeds the capacity.\<close>

definition Truncate :: "DriveItem \<Rightarrow> uint64 \<Rightarrow> fault + (Status \<times> DriveItem)" where
  "Truncate d size' =
     (case data d of
        None \<Rightarrow> Inl NilDereference
      | Some s \<Rightarrow>
          (case slice_expr s 0 (uint size') of
             Inl f \<Rightarrow> Inl f
           | Inr t \<Rightarrow> Inr (OK, set_hasChanges True (set_Size size' (set_data (Some t) d)))))"

definition Utimens :: "DriveItem \<Rightarrow> time option \<Rightarrow> time option \<Rightarrow> Status \<times> DriveItem" where
  "Utimens d atime mtime = (OK, set_ModifyTime mtime d)"

section \<open>Path, setParent, NewDriveItem\<close>

text \<open>\<open>strings.HasPrefix\<close> and \<open>strings.TrimPrefix\<close>.\<close>

definition HasPrefix :: "string \<Rightarrow> string \<Rightarrow> bool" where
  "HasPrefix s p = (length s \<ge> length p \<and> take (length p) s = p)"

definition TrimPrefix :: "string \<Rightarrow> string \<Rightarrow> string" where
  "TrimPrefix s p = (if HasPrefix s p then drop (length p) s else s)"

definition Path :: "DriveItem \<Rightarrow> fault + string" where
  "Path d =
     (case Parent d of
        None \<Rightarrow> Inl NilDereference
      | Some p \<Rightarrow>
          if parentPath p = [] \<and> Name d = ''root'' then Inr ''/''
          else Inr (TrimPrefix (parentPath p @ ''/'' @ Name d) ''/drive/root:''))"

definition setParent :: "DriveItem \<Rightarrow> DriveItem option \<Rightarrow> fault + DriveItem" where
  "setParent d newParent =
     (case newParent of
        None \<Rightarrow> Inl NilDereference
      | Some n \<Rightarrow>
          (case Path n of
             Inl f \<Rightarrow> Inl f
           | Inr p \<Rightarrow>
               Inr (DriveItem (auth d) (data d) (hasChanges d) (ID d) (Name d) (Size d)
                      (ModifyTime d) (mode d) (Some (DriveItemParent (ID n) p)) (children d)
                      (Folder d) (FileAPI d))))"

text \<open>\<open>NewDriveItem(name, mode, parent)\<close>; \<open>now\<close> is what \<open>time.Now()\<close> returns.\<close>

definition NewDriveItem :: "time \<Rightarrow> string \<Rightarrow> uint32 \<Rightarrow> DriveItem option \<Rightarrow> fault + DriveItem" where
  "NewDriveItem now name mode' parent =
     (case parent of
        None \<Rightarrow> Inl NilDereference
      | Some p \<Rightarrow>
          (case Parent p of
             None \<Rightarrow> Inl NilDereference
           | Some pp \<Rightarrow>
               Inr (DriveItem None (Some nil_bytes) False [] name 0 (Some now) mode'
                      (Some (DriveItemParent (ID p) (parentPath pp @ ''/'' @ Name p)))
                      (Some []) None None)))"

section \<open>The remote client and JSON\<close>

text \<open>The payload of a create-folder request, \<open>newFolderPost\<close>, before it is marshalled.\<close>

datatype newFolderPost = NewFolderPost (post_Name: string)

text \<open>
  Modelled from the spec: the request helpers \<open>Get\<close>, \<open>Put\<close>, \<open>Post\<close> and \<open>Delete\<close> are not
  among the source files.  The spec gives their contract: each performs one call against
  the remote API and returns raw bytes or an error.  The remote side is a function from
  the requests made so far and the new request to the answer; every call is recorded.
\<close>

datatype request =
    GET string
  | PUT string "byte list"
  | POST string newFolderPost
  | DELETE string

record remote =
  respond :: "request list \<Rightarrow> request \<Rightarrow> err + bytes"
  requests :: "request list"

definition call :: "request \<Rightarrow> remote \<Rightarrow> (err + bytes) \<times> remote" where
  "call q r = (respond r (requests r) q, r\<lparr>requests := requests r @ [q]\<rparr>)"

definition Get :: "string \<Rightarrow> Auth \<Rightarrow> remote \<Rightarrow> (err + bytes) \<times> remote" where
  "Get path a r = call (GET path) r"

definition Put :: "string \<Rightarrow> Auth \<Rightarrow> byte list \<Rightarrow> remote \<Rightarrow> (err + bytes) \<times> remote" where
  "Put path a content r = call (PUT path content) r"

definition Post :: "string \<Rightarrow> Auth \<Rightarrow> newFolderPost \<Rightarrow> remote \<Rightarrow> (err + bytes) \<times> remote" where
  "Post path a payload r = call (POST path payload) r"

definition Delete :: "string \<Rightarrow> Auth \<Rightarrow> remote \<Rightarrow> err option \<times> remote" where
  "Delete path a r =
     (case call (DELETE path) r of
        (Inl e, r') \<Rightarrow> (Some e, r')
      | (Inr b, r') \<Rightarrow> (None, r'))"

text \<open>
  What \<open>json.Unmarshal\<close> finds in a response for a \<open>DriveItem\<close>: one entry per tagged
  field.  A plain field is absent or has a value; a pointer field is absent, \<open>null\<close> or an
  object.  Untagged fields (\<open>auth\<close>, \<open>data\<close>, \<open>hasChanges\<close>, \<open>mode\<close>, \<open>children\<close>) are
  unexported: the decoder cannot reach them.
\<close>

datatype 'a jptr = Absent | Null | Object 'a

record json_item =
  j_id :: "string option"
  j_name :: "string option"
  j_size :: "uint64 option"
  j_lastModifiedDatetime :: "time jptr"
  j_parentReference :: "(string option \<times> string option) jptr"
  j_folder :: "uint32 option jptr"
  j_file :: "string option jptr"

definition merge_field :: "'a option \<Rightarrow> 'a \<Rightarrow> 'a" where
  "merge_field j old = (case j of None \<Rightarrow> old | Some v \<Rightarrow> v)"

text \<open>
  Decoding into an existing item: an absent field keeps its value, \<open>null\<close> sets a pointer
  to nil, an object is decoded into the value the pointer has (a fresh zero value when
  it is nil).
\<close>

definition unmarshal :: "json_item \<Rightarrow> DriveItem \<Rightarrow> DriveItem" where
  "unmarshal j d =
     DriveItem (auth d) (data d) (hasChanges d)
       (merge_field (j_id j) (ID d))
       (merge_field (j_name j) (Name d))
       (merge_field (j_size j) (Size d))
       (case j_lastModifiedDatetime j of
          Absent \<Rightarrow> ModifyTime d | Null \<Rightarrow> None | Object t \<Rightarrow> Some t)
       (mode d)
       (case j_parentReference j of
          Absent \<Rightarrow> Parent d
        | Null \<Rightarrow> None
        | Object (i, p) \<Rightarrow>
            (let old = (case Parent d of None \<Rightarrow> DriveItemParent [] [] | Some q \<Rightarrow> q)
             in Some (DriveItemParent (merge_field i (parentID old)) (merge_field p (parentPath old)))))
       (children d)
       (case j_folder j of
          Absent \<Rightarrow> Folder d
        | Null \<Rightarrow> None
        | Object c \<Rightarrow> Some (merge_field c (case Folder d of None \<Rightarrow> 0 | Some n \<Rightarrow> n)))
       (case j_file j of
          Absent \<Rightarrow> FileAPI d
        | Null \<Rightarrow> None
        | Object m \<Rightarrow> Some (merge_field m (case FileAPI d of None \<Rightarrow> [] | Some n \<Rightarrow> n)))"

text \<open>The zero value of \<open>DriveItem\<close>, into which a fetched item is decoded.\<close>

definition zero_DriveItem :: DriveItem where
  "zero_DriveItem = DriveItem None None False [] [] 0 None 0 None None None None"

text \<open>
  The byte-level JSON parser is a parameter wherever a response is decoded:
  \<open>parse_item\<close> gives the fields found and the error \<open>json.Unmarshal\<close> returns, and
  \<open>parse_children\<close> gives the entries of the \<open>value\<close> array (\<open>None\<close> for a \<open>null\<close> entry,
  which decodes to a nil pointer).  \<open>ChildrenPath\<close>, which builds the request path of a
  listing, is not among the source files and is a parameter as well.
\<close>

type_synonym parse_item = "byte list \<Rightarrow> json_item \<times> err option"
type_synonym parse_children = "byte list \<Rightarrow> json_item option list"

section \<open>GetChildren, FetchContent, Upload, Flush\<close>

text \<open>\<open>m[k] = v\<close> on a Go map.\<close>

fun map_assign :: "'k \<Rightarrow> 'v \<Rightarrow> ('k \<times> 'v) list \<Rightarrow> ('k \<times> 'v) list" where
  "map_assign k v [] = [(k, v)]"
| "map_assign k v ((k', v') # m) = (if k = k' then (k, v) # m else (k', v') # map_assign k v m)"

text \<open>
  The loop of \<open>GetChildren\<close> over the fetched children.  \<open>child.Parent.item = d\<close>
  dereferences the child and its parent reference.
\<close>

fun store_children ::
  "json_item option list \<Rightarrow> (string \<times> DriveItem) list \<Rightarrow> fault + (string \<times> DriveItem) list" where
  "store_children [] m = Inr m"
| "store_children (None # cs) m = Inl NilDereference"
| "store_children (Some j # cs) m =
     (let child = unmarshal j zero_DriveItem
      in case Parent child of
           None \<Rightarrow> Inl NilDereference
         | Some p \<Rightarrow> store_children cs (map_assign (Name child) child m))"

definition GetChildren ::
  "(string \<Rightarrow> string) \<Rightarrow> parse_children \<Rightarrow> DriveItem \<Rightarrow> Auth \<Rightarrow> remote \<Rightarrow>
     fault + (((string \<times> DriveItem) list option \<times> err option) \<times> DriveItem \<times> remote)" where
  "GetChildren ChildrenPath parse d a r =
     (if \<not> IsDir d \<or> children d \<noteq> None then Inr ((children d, None), d, r)
      else case Path d of
             Inl f \<Rightarrow> Inl f
           | Inr p \<Rightarrow>
               (case Get (ChildrenPath p) a r of
                  (Inl e, r') \<Rightarrow> Inr ((None, Some e), d, r')
                | (Inr body, r') \<Rightarrow>
                    (case store_children (parse (elems body)) [] of
                       Inl f \<Rightarrow> Inl f
                     | Inr m \<Rightarrow> Inr ((Some m, None), set_children (Some m) d, r'))))"

definition FetchContent :: "DriveItem \<Rightarrow> Auth \<Rightarrow> remote \<Rightarrow> err option \<times> DriveItem \<times> remote" where
  "FetchContent d a r =
     (case Get (''/me/drive/items/'' @ ID d @ ''/content'') a r of
        (Inl e, r') \<Rightarrow> (Some e, d, r')
      | (Inr body, r') \<Rightarrow> (None, set_data (Some body) d, r'))"

definition Upload ::
  "parse_item \<Rightarrow> DriveItem \<Rightarrow> Auth \<Rightarrow> remote \<Rightarrow> fault + (err option \<times> DriveItem \<times> remote)" where
  "Upload parse d a r =
     (case (if ID d = []
            then (case Parent d of
                    None \<Rightarrow> Inl NilDereference
                  | Some p \<Rightarrow> Inr (''/me/drive/items/'' @ parentID p @ '':/'' @ Name d @ '':/content''))
            else Inr (''/me/drive/items/'' @ ID d @ ''/content'')) of
        Inl f \<Rightarrow> Inl f
      | Inr uploadPath \<Rightarrow>
          (case data d of
             None \<Rightarrow> Inl NilDereference
           | Some s \<Rightarrow>
               (case Put uploadPath a (elems s) r of
                  (Inl e, r') \<Rightarrow> Inr (Some e, d, r')
                | (Inr resp, r') \<Rightarrow>
                    (case parse (elems resp) of
                       (j, e) \<Rightarrow> Inr (e, unmarshal j d, r')))))"

text \<open>
  \<open>Flush\<close> has a value receiver.  \<open>root_auth\<close> is the outcome of \<open>*d.getRoot().auth\<close>,
  which follows the parent back pointers.  The upload it starts runs detached, on the
  copy of the item that the receiver is; the call itself returns the status only.
\<close>

definition Flush :: "DriveItem \<Rightarrow> fault + Auth \<Rightarrow> fault + Status" where
  "Flush d root_auth =
     (if hasChanges d
      then (case root_auth of Inl f \<Rightarrow> Inl f | Inr a \<Rightarrow> Inr OK)
      else Inr OK)"

section \<open>NLink, FakeSize\<close>

text \<open>The loop of \<open>NLink\<close> over the children map, with its \<open>uint32\<close> counter.\<close>

fun count_subdirs :: "(string \<times> DriveItem) list \<Rightarrow> uint32 \<Rightarrow> uint32" where
  "count_subdirs [] nSubdir = nSubdir"
| "count_subdirs ((k, v) # m) nSubdir = count_subdirs m (if IsDir v then nSubdir + 1 else nSubdir)"

definition NLink :: "DriveItem \<Rightarrow> uint32" where
  "NLink d =
     (if IsDir d
      then 2 + count_subdirs (case children d of None \<Rightarrow> [] | Some m \<Rightarrow> m) 0
      else 1)"

definition FakeSize :: "DriveItem \<Rightarrow> uint64" where
  "FakeSize d = (if IsDir d then 4096 else Size d)"

section \<open>The filesystem adapter: Mkdir and Rmdir\<close>

text \<open>The class \<open>\w\<close> of Go's regexp syntax: \<open>[0-9A-Za-z_]\<close>.\<close>

definition is_word :: "char \<Rightarrow> bool" where
  "is_word c =
     (let n = (of_char c :: nat)
      in (48 \<le> n \<and> n \<le> 57) \<or> (65 \<le> n \<and> n \<le> 90) \<or> n = 95 \<or> (97 \<le> n \<and> n \<le> 122))"

text \<open>
  \<open>regexp.MustCompile(`\w+$`).FindStringIndex(s)\<close>, first component: the start of the
  leftmost match, that is the least \<open>i\<close> such that \<open>s[i:]\<close> is a non-empty run of word
  characters reaching the end of the text; \<open>None\<close> is the nil result when nothing
  matches.
\<close>

fun FindStringIndex :: "string \<Rightarrow> nat option" where
  "FindStringIndex [] = None"
| "FindStringIndex (c # cs) =
     (if list_all is_word (c # cs) then Some 0 else map_option Suc (FindStringIndex cs))"

text \<open>
  \<open>Mkdir(name, mode, context)\<close>.  Indexing the nil result of \<open>FindStringIndex\<close> with
  \<open>[0]\<close> panics.  The payload of the request is the marshalled \<open>newFolderPost\<close>.
\<close>

definition Mkdir ::
  "(string \<Rightarrow> string) \<Rightarrow> Auth \<Rightarrow> string \<Rightarrow> uint32 \<Rightarrow> remote \<Rightarrow> fault + (Status \<times> remote)" where
  "Mkdir ChildrenPath a name mode' r =
     (let name1 = ''/'' @ name;
          name2 = (if last name1 = CHR ''/'' then butlast name1 else name1)
      in case FindStringIndex name2 of
           None \<Rightarrow> Inl IndexOutOfRange
         | Some split \<Rightarrow>
             (let parent = take split name2; child = drop split name2
              in case Post (ChildrenPath parent) a (NewFolderPost child) r of
                   (Inl e, r') \<Rightarrow> Inr (EREMOTEIO, r')
                 | (Inr resp, r') \<Rightarrow> Inr (OK, r')))"

text \<open>
  \<open>Rmdir(name, context)\<close>.  \<open>GetItem\<close>, the path resolver, is not among the source files
  and is a parameter: it returns the item or an error.
\<close>

definition Rmdir ::
  "(string \<Rightarrow> Auth \<Rightarrow> remote \<Rightarrow> (err + DriveItem) \<times> remote) \<Rightarrow> Auth \<Rightarrow> string \<Rightarrow> remote \<Rightarrow>
     Status \<times> remote" where
  "Rmdir GetItem a name r =
     (case GetItem (''/'' @ name) a r of
        (Inl e, r1) \<Rightarrow> (EREMOTEIO, r1)
      | (Inr item, r1) \<Rightarrow>
          (case Delete (''/me/drive/items/'' @ ID item) a r1 of
             (Some e, r2) \<Rightarrow> (EREMOTEIO, r2)
           | (None, r2) \<Rightarrow> (OK, r2)))"

section \<open>Sequences of calls on one item\<close>

text \<open>
  The methods with a pointer receiver are the ones that can change the item they are
  called on; a method with a value receiver (\<open>Read\<close>, \<open>Flush\<close>, \<open>Path\<close>, \<open>IsDir\<close>,
  \<open>NLink\<close>, \<open>FakeSize\<close>, \<open>GetAttr\<close>) works on a copy.  An \<open>op\<close> is one call of a
  pointer-receiver method with its arguments; \<open>apply_ops\<close> runs a sequence of them on an
  item and the remote side, and stops at the first panic.
\<close>

datatype op =
    OpSetParent "DriveItem option"
  | OpGetChildren Auth
  | OpFetchContent Auth
  | OpWrite nat "byte list" int64
  | OpUpload Auth
  | OpUtimens "time option" "time option"
  | OpTruncate uint64
  | OpMode

fun apply_op ::
  "(string \<Rightarrow> string) \<Rightarrow> parse_children \<Rightarrow> parse_item \<Rightarrow> op \<Rightarrow> DriveItem \<times> remote \<Rightarrow>
     fault + (DriveItem \<times> remote)" where
  "apply_op cp pc pi (OpSetParent n) (d, r) =
     (case setParent d n of Inl f \<Rightarrow> Inl f | Inr d' \<Rightarrow> Inr (d', r))"
| "apply_op cp pc pi (OpGetChildren a) (d, r) =
     (case GetChildren cp pc d a r of Inl f \<Rightarrow> Inl f | Inr (res, d', r') \<Rightarrow> Inr (d', r'))"
| "apply_op cp pc pi (OpFetchContent a) (d, r) =
     (case FetchContent d a r of (e, d', r') \<Rightarrow> Inr (d', r'))"
| "apply_op cp pc pi (OpWrite room dat off) (d, r) =
     (case Write room d dat off of Inl f \<Rightarrow> Inl f | Inr (res, d') \<Rightarrow> Inr (d', r))"
| "apply_op cp pc pi (OpUpload a) (d, r) =
     (case Upload pi d a r of Inl f \<Rightarrow> Inl f | Inr (e, d', r') \<Rightarrow> Inr (d', r'))"
| "apply_op cp pc pi (OpUtimens atime mtime) (d, r) = Inr (snd (Utimens d atime mtime), r)"
| "apply_op cp pc pi (OpTruncate n) (d, r) =
     (case Truncate d n of Inl f \<Rightarrow> Inl f | Inr (st, d') \<Rightarrow> Inr (d', r))"
| "apply_op cp pc pi OpMode (d, r) = Inr (snd (Mode d), r)"

fun apply_ops ::
  "(string \<Rightarrow> string) \<Rightarrow> parse_children \<Rightarrow> parse_item \<Rightarrow> op list \<Rightarrow> DriveItem \<times> remote \<Rightarrow>
     fault + (DriveItem \<times> remote)" where
  "apply_ops cp pc pi [] st = Inr st"
| "apply_ops cp pc pi (x # xs) st =
     (case apply_op cp pc pi x st of Inl f \<Rightarrow> Inl f | Inr st' \<Rightarrow> apply_ops cp pc pi xs st')"

section \<open>The path rule in the words of the specification\<close>

text \<open>
  The specification's rule for paths: the root (no parent path, name \<open>root\<close>) has path
  \<open>/\<close>; any other item's path is its parent's path, \<open>/\<close> and its own name, with the
  remote API's prefix \<open>/drive/root:\<close> stripped when it is there.
\<close>

fun strip_prefix :: "string \<Rightarrow> string \<Rightarrow> string option" where
  "strip_prefix [] s = Some s"
| "strip_prefix (p # ps) [] = None"
| "strip_prefix (p # ps) (c # cs) = (if p = c then strip_prefix ps cs else None)"

definition Path_spec :: "string \<Rightarrow> string \<Rightarrow> string" where
  "Path_spec parent_path name =
     (if parent_path = [] \<and> name = ''root'' then ''/''
      else (case strip_prefix ''/drive/root:'' (parent_path @ ''/'' @ name) of
              Some rest \<Rightarrow> rest
            | None \<Rightarrow> parent_path @ ''/'' @ name))"

section \<open>Items as the remote listing describes them\<close>

text \<open>
  Modelled from the spec: the item descriptors come from the remote API, which is not
  among the source files.  Each carries the ID and the path of its parent, and (comment
  in \<open>Path\<close>) all these paths come prefixed with \<open>/drive/root:\<close>: the prefix alone for
  an item in the root, the prefix and the directory's path otherwise.  \<open>listed_under d c\<close>
  says that the parent reference of \<open>c\<close> describes the item \<open>d\<close> in this way.
\<close>

definition listed_under :: "DriveItem \<Rightarrow> DriveItem \<Rightarrow> bool" where
  "listed_under d c =
     (case (Path d, Parent c) of
        (Inr pp, Some pr) \<Rightarrow>
          parentID pr = ID d \<and>
          parentPath pr = ''/drive/root:'' @ (if pp = ''/'' then [] else pp)
      | _ \<Rightarrow> False)"

section \<open>Subdirectories\<close>

text \<open>The immediate children of an item that are directories; none when the map is nil.\<close>

definition subdirectories :: "DriveItem \<Rightarrow> (string \<times> DriveItem) list" where
  "subdirectories d =
     filter (\<lambda>kv. IsDir (snd kv)) (case children d of None \<Rightarrow> [] | Some m \<Rightarrow> m)"

section \<open>Example items and remotes\<close>

definition root_item :: DriveItem where
  "root_item = DriveItem (Some (Auth ''token'')) None False ''rootid'' ''root'' 0 None 0
     (Some (DriveItemParent ''driveid'' [])) None (Some 3) None"

definition docs_item :: DriveItem where
  "docs_item = DriveItem None None False ''id1'' ''docs'' 0 None 0
     (Some (DriveItemParent ''rootid'' ''/drive/root:'')) None (Some 0) None"

definition pics_item :: DriveItem where
  "pics_item = DriveItem None None False ''id2'' ''pics'' 0 None 0
     (Some (DriveItemParent ''rootid'' ''/drive/root:'')) None (Some 0) None"

definition file_item :: DriveItem where
  "file_item = DriveItem None (Some (Slice [97, 98, 99] [])) False ''id3'' ''notes'' 3 None 0
     (Some (DriveItemParent ''id1'' ''/drive/root:/docs'')) None None (Some ''text/plain'')"

definition filled_root :: DriveItem where
  "filled_root = set_children
     (Some [(''docs'', docs_item), (''pics'', pics_item), (''notes'', file_item)]) root_item"

definition new_item :: DriveItem where
  "new_item = DriveItem None (Some nil_bytes) False [] ''new'' 0 (Some 1) 0
     (Some (DriveItemParent ''rootid'' ''/root'')) (Some []) None None"

definition docs_json :: json_item where
  "docs_json = \<lparr>j_id = Some ''id1'', j_name = Some ''docs'', j_size = None,
     j_lastModifiedDatetime = Absent,
     j_parentReference = Object (Some ''rootid'', Some ''/drive/root:''),
     j_folder = Object None, j_file = Absent\<rparr>"

text \<open>The new item after one byte was written, the answer to its upload, and the item then.\<close>

definition written_item :: DriveItem where
  "written_item = DriveItem None (Some (Slice [7] [])) True [] ''new'' 1 (Some 1) 0
     (Some (DriveItemParent ''rootid'' ''/root'')) (Some []) None None"

definition upload_json :: json_item where
  "upload_json = \<lparr>j_id = Some ''id9'', j_name = Some ''new'', j_size = Some 1,
     j_lastModifiedDatetime = Object 2,
     j_parentReference = Object (Some ''rootid'', Some ''/drive/root:''),
     j_folder = Absent, j_file = Object (Some ''text/plain'')\<rparr>"

definition uploaded_item :: DriveItem where
  "uploaded_item = DriveItem None (Some (Slice [7] [])) True ''id9'' ''new'' 1 (Some 2) 0
     (Some (DriveItemParent ''rootid'' ''/drive/root:'')) (Some []) None (Some ''text/plain'')"

text \<open>
  A listing of the root with the one entry \<open>docs\<close>: the body of the response (the text
  \<open>{"value":[docs]}\<close> stands for it), a parser that reads it, and a remote side that
  answers with it.
\<close>

definition docs_listing :: "byte list" where
  "docs_listing = [123, 34, 118, 97, 108, 117, 101, 34, 58, 91, 100, 111, 99, 115, 93, 125]"

definition parse_listing :: parse_children where
  "parse_listing b = (if b = docs_listing then [Some docs_json] else [])"

definition listing_remote :: remote where
  "listing_remote = \<lparr>respond = (\<lambda>h q. Inr (Slice docs_listing [])), requests = []\<rparr>"

text \<open>A remote side that is down, and one whose first call fails and later calls answer.\<close>

definition down_remote :: remote where
  "down_remote = \<lparr>respond = (\<lambda>h q. Inl (Err ''timeout'')), requests = []\<rparr>"

definition flaky_remote :: remote where
  "flaky_remote =
     \<lparr>respond = (\<lambda>h q. if h = [] then Inl (Err ''timeout'') else Inr nil_bytes), requests = []\<rparr>"

definition up_remote :: remote where
  "up_remote = \<lparr>respond = (\<lambda>h q. Inr nil_bytes), requests = []\<rparr>"

section \<open>Arithmetic and field updates\<close>

lemma wrap64_id: "- (2 ^ 63) \<le> x \<Longrightarrow> x < 2 ^ 63 \<Longrightarrow> wrap64 x = x"
  by (simp add: wrap64_def)

lemmas setters = set_data_def set_hasChanges_def set_Size_def set_ModifyTime_def set_children_def

section \<open>Read\<close>

text \<open>
  Within the buffered content (\<open>0 \<le> off \<le> len\<close>) \<open>Read\<close> returns the bytes from \<open>off\<close>
  on, at most \<open>len(buf)\<close> of them, with status \<open>OK\<close>.
\<close>

lemma Read_within:
  assumes "data d = Some s" and "0 \<le> sint off" and "sint off \<le> int (len s)"
    and "sint off + int (length buf) < 2 ^ 63"
  shows "Read d buf off = Inr (take (length buf) (drop (nat (sint off)) (elems s)), OK)"
proof -
  obtain n where n: "sint off = int n"
    using assms(2) nonneg_int_cases by blast
  have nl: "n \<le> length (elems s)"
    using assms(3) n by (simp add: len_def)
  have w: "wrap64 (int n + int (length buf)) = int n + int (length buf)"
    using assms(4) n by (intro wrap64_id) auto
  show ?thesis
  proof (cases "int n + int (length buf) > int (len s)")
    case True
    then have "length (elems s) - n \<le> length buf"
      by (simp add: len_def)
    then show ?thesis
      using assms(1) n nl w True by (simp add: Read_def slice_expr_def cap_def len_def)
  next
    case False
    then have "n + length buf \<le> length (elems s)"
      by (simp add: len_def)
    then show ?thesis
      using assms(1) n nl w False
      by (simp add: Read_def slice_expr_def cap_def len_def nat_add_distrib)
  qed
qed

text \<open>Past the end of the content the slice expression \<open>(*d.data)[off:end]\<close> panics.\<close>

lemma Read_panics_past_end:
  assumes "data d = Some s" and "int (len s) < sint off"
  shows "Read d buf off = Inl SliceBoundsOutOfRange"
  using assms by (auto simp: Read_def slice_expr_def Let_def)

text \<open>
  C1: \<open>Read\<close> serves bytes from the item's buffered content, clipped to the content
  length, and succeeds for every offset, also at or past the end of the content.
  The code clips \<open>end\<close> to the content length but not \<open>off\<close>: on the three bytes
  \<open>abc\<close>, a read of four bytes at offset 5 evaluates \<open>(*d.data)[5:3]\<close> and panics
  instead of returning an empty slice with \<open>OK\<close>.
\<close>

theorem Read_past_end_panics:
  "Read file_item [0, 0, 0, 0] 5 = Inl SliceBoundsOutOfRange"
  by (simp add: Read_def file_item_def wrap64_def slice_expr_def len_def cap_def)

section \<open>Write\<close>

text \<open>An offset beyond the capacity of the buffer makes \<open>Write\<close> panic, in either branch.\<close>

lemma Write_panics_beyond_cap:
  assumes "data d = Some s" and "int (cap s) < sint off"
  shows "Write room d dat off = Inl SliceBoundsOutOfRange"
  using assms by (auto simp: Write_def slice_expr_def copy_at_def cap_def len_def Let_def)

text \<open>
  On an item whose \<open>Size\<close> agrees with its content, a write at the end of the content,
  or beyond it but within the capacity of the buffer, keeps the content, exposes the
  bytes of the backing array up to the offset and appends the data.
\<close>

lemma Write_appends_from_end:
  assumes "data d = Some s" and "sint (Size d) = int (len s)"
    and "int (len s) \<le> sint off" and "sint off \<le> int (cap s)"
    and "sint off + int (length dat) < 2 ^ 63"
  shows "\<exists>t. Write room d dat off =
           Inr ((word_of_nat (length dat), OK),
                set_hasChanges True (set_Size (word_of_nat (len t)) (set_data (Some t) d))) \<and>
         elems t = elems s @ take (nat (sint off) - len s) (spare s) @ dat"
proof -
  obtain n where n: "sint off = int n"
    using assms(3) by (metis nonneg_int_cases of_nat_0_le_iff order_trans)
  have w1: "wrap64 (int n + int (length dat)) = int n + int (length dat)"
    using assms(5) n by (intro wrap64_id) auto
  have w2: "wrap64 (int (len s) - 1) = int (len s) - 1"
    using assms(3,5) n by (intro wrap64_id) auto
  have sl: "slice_expr s 0 (int n) = Inr (Slice (take n (elems s @ spare s)) (drop n (elems s @ spare s)))"
    using assms(4) n by (simp add: slice_expr_def)
  have tk: "take n (elems s @ spare s) = elems s @ take (n - len s) (spare s)"
    using assms(3) n by (simp add: len_def)
  let ?t = "append_bytes room (Slice (take n (elems s @ spare s)) (drop n (elems s @ spare s))) dat"
  have el: "elems ?t = elems s @ take (n - len s) (spare s) @ dat"
    using tk by (simp add: append_bytes_def)
  have "Write room d dat off =
          Inr ((word_of_nat (length dat), OK),
               set_hasChanges True (set_Size (word_of_nat (len ?t)) (set_data (Some ?t) d)))"
    using assms(1,2,3) n w1 w2 sl by (simp add: Write_def Let_def)
  with el n show ?thesis by auto
qed

text \<open>Writing at offset 0 to an empty item and reading as many bytes back returns them.\<close>

lemma Write_then_Read:
  assumes "data d = Some s" and "elems s = []" and "Size d = 0"
    and "length dat < 2 ^ 63" and "length buf = length dat"
  shows "\<exists>d'. Write room d dat 0 = Inr ((word_of_nat (length dat), OK), d') \<and>
              Read d' buf 0 = Inr (dat, OK)"
proof -
  have "sint (Size d) = int (len s)"
    using assms(2,3) by (simp add: len_def)
  moreover have "int (len s) \<le> sint (0 :: int64)" "sint (0 :: int64) \<le> int (cap s)"
    using assms(2) by (simp_all add: len_def)
  moreover have "sint (0 :: int64) + int (length dat) < 2 ^ 63"
    using assms(4) by simp
  ultimately obtain t where
    t: "Write room d dat 0 =
          Inr ((word_of_nat (length dat), OK),
               set_hasChanges True (set_Size (word_of_nat (len t)) (set_data (Some t) d)))"
       "elems t = elems s @ take (nat (sint (0 :: int64)) - len s) (spare s) @ dat"
    using Write_appends_from_end [OF assms(1), of 0 dat room] by blast
  let ?d' = "set_hasChanges True (set_Size (word_of_nat (len t)) (set_data (Some t) d))"
  have e: "elems t = dat"
    using t(2) assms(2) by simp
  have "Read ?d' buf 0 = Inr (take (length buf) (drop (nat (sint (0 :: int64))) (elems t)), OK)"
    by (rule Read_within) (use assms(4,5) e in \<open>simp_all add: setters len_def\<close>)
  then have "Read ?d' buf 0 = Inr (dat, OK)"
    using e assms(5) by simp
  with t(1) show ?thesis by blast
qed

text \<open>
  C3: writing \<open>B\<close> at offset 0 to an empty item and reading \<open>len(B)\<close> bytes at offset 0
  returns \<open>B\<close>; and for every item, writing \<open>B2\<close> at an offset beyond the current content
  length appends, leaving the bytes before the offset intact.
  The first half holds (\<open>Write_then_Read\<close>).  The second does not: the append branch
  evaluates \<open>(*d.data)[:offset]\<close>, which panics as soon as the offset exceeds the capacity
  of the buffer.  On an item just made by \<open>NewDriveItem\<close> (empty content, capacity 0), a
  write of one byte at offset 5 panics.
\<close>

theorem Write_beyond_length_panics:
  "NewDriveItem 1 ''new'' 0 (Some root_item) = Inr new_item \<and>
   Write 0 new_item [120] 5 = Inl SliceBoundsOutOfRange"
  by (simp add: NewDriveItem_def root_item_def new_item_def Write_def nil_bytes_def
        slice_expr_def cap_def wrap64_def)

section \<open>Path\<close>

text \<open>\<open>strings.TrimPrefix\<close> strips the prefix exactly when the string starts with it.\<close>

lemma strip_prefix_HasPrefix:
  "strip_prefix p s = (if HasPrefix s p then Some (drop (length p) s) else None)"
  by (induction p s rule: strip_prefix.induct) (auto simp: HasPrefix_def)

lemma TrimPrefix_strip:
  "TrimPrefix s p = (case strip_prefix p s of Some rest \<Rightarrow> rest | None \<Rightarrow> s)"
  by (simp add: strip_prefix_HasPrefix TrimPrefix_def)

text \<open>
  A child as the remote listing describes it, with the parent path \<open>/drive/root:\<close>
  followed by the path \<open>q\<close> of its directory (empty for the root), has path \<open>q/name\<close>.
\<close>

lemma Path_fetched_child:
  assumes "Parent c = Some (DriveItemParent i (''/drive/root:'' @ q))"
  shows "Path c = Inr (q @ ''/'' @ Name c)"
  using assms by (simp add: Path_def TrimPrefix_def HasPrefix_def)

text \<open>
  So a listed child of the root has path \<open>/name\<close>: the root's own \<open>/\<close> is not doubled.
\<close>

lemma Path_child_of_root:
  "Path root_item = Inr ''/'' \<and> Path docs_item = Inr ''/docs''"
  by (simp add: Path_def root_item_def docs_item_def TrimPrefix_def HasPrefix_def)

text \<open>
  The rule \<open>Path\<close> applies: the root has path \<open>/\<close>, and any other item has the path
  recorded in its parent reference, \<open>/\<close> and its own name, with the prefix
  \<open>/drive/root:\<close> stripped.
\<close>

lemma Path_field_rule:
  assumes "Parent d = Some p"
  shows "(parentPath p = [] \<and> Name d = ''root'' \<longrightarrow> Path d = Inr ''/'') \<and>
         Path d = Inr (Path_spec (parentPath p) (Name d))"
  using assms by (simp add: Path_def Path_spec_def TrimPrefix_strip split: option.split)

text \<open>The path of an item listed under \<open>d\<close>, from the path of \<open>d\<close>.\<close>

lemma Path_listed_under:
  assumes "listed_under d c" and "Path d = Inr pp"
  shows "Path c = Inr ((if pp = ''/'' then [] else pp) @ ''/'' @ Name c)"
proof -
  from assms obtain pr where pr: "Parent c = Some pr"
    and pp: "parentPath pr = ''/drive/root:'' @ (if pp = ''/'' then [] else pp)"
    by (auto simp: listed_under_def split: option.splits)
  obtain i q where "pr = DriveItemParent i q"
    by (cases pr)
  with pr pp have "Parent c = Some (DriveItemParent i (''/drive/root:'' @ (if pp = ''/'' then [] else pp)))"
    by simp
  then show ?thesis
    by (rule Path_fetched_child)
qed

text \<open>
  An item made by \<open>NewDriveItem\<close> under the root records the parent path \<open>/root\<close>, and
  \<open>setParent\<close> records the parent's stripped path; neither is the form a listing gives.
\<close>

lemma Path_of_new_item:
  "NewDriveItem 1 ''new'' 0 (Some root_item) = Inr new_item \<and> Path new_item = Inr ''/root/new''"
  by (simp add: NewDriveItem_def root_item_def new_item_def Path_def TrimPrefix_def HasPrefix_def)

lemma Path_after_setParent:
  "case setParent docs_item (Some root_item) of
     Inl f \<Rightarrow> False
   | Inr d \<Rightarrow> Path d = Inr ''//docs''"
  by (simp add: setParent_def root_item_def docs_item_def Path_def TrimPrefix_def HasPrefix_def)

text \<open>
  C2, as amended: \<open>Path\<close> is a function of the item's cached metadata alone (its name
  and the path recorded in its parent reference; no remote side is involved).  The root
  item has path \<open>/\<close>, and every other item has the path recorded in its parent reference,
  \<open>/\<close> and its own name, with the prefix \<open>/drive/root:\<close> stripped.  For an item listed
  under a directory \<open>d\<close> this is the path of \<open>d\<close>, \<open>/\<close> and its own name when \<open>d\<close> is not
  the root, and \<open>/\<close> and its own name when \<open>d\<close> is the root.
\<close>

theorem Path_of_item:
  "(Parent c = Some pr \<longrightarrow>
      (parentPath pr = [] \<and> Name c = ''root'' \<longrightarrow> Path c = Inr ''/'') \<and>
      Path c = Inr (Path_spec (parentPath pr) (Name c))) \<and>
   (listed_under d c \<and> Path d = Inr pp \<and> pp \<noteq> ''/'' \<longrightarrow>
      Path c = Inr (pp @ ''/'' @ Name c)) \<and>
   (listed_under d c \<and> Path d = Inr ''/'' \<longrightarrow> Path c = Inr (''/'' @ Name c))"
proof -
  have 1: "(parentPath pr = [] \<and> Name c = ''root'' \<longrightarrow> Path c = Inr ''/'') \<and>
      Path c = Inr (Path_spec (parentPath pr) (Name c))" if "Parent c = Some pr"
    using that by (rule Path_field_rule)
  have 2: "Path c = Inr (pp @ ''/'' @ Name c)"
    if "listed_under d c" and "Path d = Inr pp" and "pp \<noteq> ''/''"
    using Path_listed_under [OF that(1,2)] that(3) by simp
  have 3: "Path c = Inr (''/'' @ Name c)" if "listed_under d c" and "Path d = Inr ''/''"
    using Path_listed_under [OF that] by simp
  from 1 2 3 show ?thesis
    by blast
qed

theorem Path_of_item_witness:
  "Path root_item = Inr ''/'' \<and>
   listed_under root_item docs_item \<and> Path docs_item = Inr ''/docs'' \<and>
   listed_under docs_item file_item \<and> Path file_item = Inr ''/docs/notes'' \<and>
   Path file_item = Inr (''/docs'' @ ''/'' @ Name file_item)"
proof -
  have r: "Parent root_item = Some (DriveItemParent ''driveid'' [])"
    and rn: "parentPath (DriveItemParent ''driveid'' []) = [] \<and> Name root_item = ''root''"
    by (simp_all add: root_item_def)
  have pr: "Path root_item = Inr ''/''"
    by (rule Path_of_item [THEN conjunct1, THEN mp, OF r, THEN conjunct1, THEN mp, OF rn])
  have l1: "listed_under root_item docs_item"
    by (simp add: listed_under_def pr) (simp add: docs_item_def root_item_def)
  have pd: "Path docs_item = Inr (''/'' @ Name docs_item)"
    by (rule Path_of_item [THEN conjunct2, THEN conjunct2, THEN mp, OF conjI, OF l1 pr])
  then have pd': "Path docs_item = Inr ''/docs''"
    by (simp add: docs_item_def)
  have l2: "listed_under docs_item file_item"
    by (simp add: listed_under_def pd') (simp add: docs_item_def file_item_def)
  have ne: "''/docs'' \<noteq> ''/''"
    by simp
  have pf: "Path file_item = Inr (''/docs'' @ ''/'' @ Name file_item)"
    by (rule Path_of_item [THEN conjunct2, THEN conjunct1, THEN mp, OF conjI, OF l2 conjI,
          OF pd' ne])
  then have "Path file_item = Inr ''/docs/notes''"
    by (simp add: file_item_def)
  with pr l1 pd' l2 pf show ?thesis
    by blast
qed

text \<open>
  C2 as stated, with the parent's path the \<open>Path()\<close> of the parent item, fails at a
  listed child of the root: the listing of the root stores \<open>docs\<close>, whose path is
  \<open>/docs\<close> and not the root's \<open>/\<close> followed by \<open>/\<close> and \<open>docs\<close>.
\<close>

theorem Path_child_of_root_counterexample:
  "GetChildren id parse_listing root_item (Auth ''token'') listing_remote =
     Inr ((Some [(''docs'', docs_item)], None),
          set_children (Some [(''docs'', docs_item)]) root_item,
          listing_remote\<lparr>requests := [GET ''/'']\<rparr>) \<and>
   Path root_item = Inr ''/'' \<and>
   Path docs_item = Inr ''/docs'' \<and>
   Path docs_item \<noteq> Inr (''/'' @ ''/'' @ Name docs_item)"
proof -
  have p: "Path root_item = Inr ''/''"
    by (simp add: Path_def root_item_def)
  have d: "IsDir root_item" "children root_item = None"
    by (simp_all add: IsDir_def Mode_def root_item_def S_IFDIR_def)
  have s: "store_children (parse_listing docs_listing) [] = Inr [(''docs'', docs_item)]"
    by (simp add: parse_listing_def docs_json_def docs_item_def unmarshal_def
          zero_DriveItem_def merge_field_def)
  have g: "GetChildren id parse_listing root_item (Auth ''token'') listing_remote =
     Inr ((Some [(''docs'', docs_item)], None),
          set_children (Some [(''docs'', docs_item)]) root_item,
          listing_remote\<lparr>requests := [GET ''/'']\<rparr>)"
    by (simp add: GetChildren_def d p Get_def call_def listing_remote_def s)
  have c: "Path docs_item = Inr ''/docs''"
    by (simp add: Path_def docs_item_def TrimPrefix_def HasPrefix_def)
  have nm: "Name docs_item = ''docs''"
    by (simp add: docs_item_def)
  have n: "Path docs_item \<noteq> Inr (''/'' @ ''/'' @ Name docs_item)"
    unfolding c nm by simp
  from g p c n show ?thesis
    by blast
qed

section \<open>GetChildren\<close>

lemma IsDir_set_children [simp]: "IsDir (set_children v d) = IsDir d"
  by (simp add: IsDir_def Mode_def set_children_def Let_def)

text \<open>
  C5: for a directory whose children map is non-nil, and for any item that is not a
  directory, \<open>GetChildren\<close> returns the cached children with no error, leaves the item
  as it is and makes no remote call; a second call makes no further request and returns
  the same.
\<close>

theorem GetChildren_cached:
  assumes "\<not> IsDir d \<or> children d \<noteq> None"
  shows "GetChildren cp pc d a r = Inr ((children d, None), d, r) \<and>
         (case GetChildren cp pc d a r of
            Inl f \<Rightarrow> False
          | Inr (res, d1, r1) \<Rightarrow>
              requests r1 = requests r \<and> GetChildren cp pc d1 a r1 = Inr (res, d1, r1))"
  using assms by (simp add: GetChildren_def)

theorem GetChildren_cached_witness:
  "GetChildren id (\<lambda>b. []) filled_root (Auth ''token'') down_remote =
     Inr ((children filled_root, None), filled_root, down_remote) \<and>
   GetChildren id (\<lambda>b. []) file_item (Auth ''token'') down_remote =
     Inr ((None, None), file_item, down_remote)"
proof -
  have 1: "\<not> IsDir filled_root \<or> children filled_root \<noteq> None"
    by (simp add: filled_root_def set_children_def)
  have 2: "\<not> IsDir file_item \<or> children file_item \<noteq> None"
    by (simp add: file_item_def IsDir_def Mode_def S_IFDIR_def S_IFREG_def)
  have 3: "children file_item = None"
    by (simp add: file_item_def)
  show ?thesis
    using GetChildren_cached [OF 1, of id "\<lambda>b. []" "Auth ''token''" down_remote]
      GetChildren_cached [OF 2, of id "\<lambda>b. []" "Auth ''token''" down_remote] 3
    by simp
qed

text \<open>
  C6: when the listing call of \<open>GetChildren\<close> fails, the error is returned and the item
  is unchanged, its children map still nil; the next call on the item sends the listing
  request again, and fills the map when that request succeeds.
\<close>

theorem GetChildren_failure_retry:
  assumes "IsDir d" and "children d = None" and "Path d = Inr p"
    and "respond r (requests r) (GET (cp p)) = Inl e"
    and "r1 = r\<lparr>requests := requests r @ [GET (cp p)]\<rparr>"
  shows "GetChildren cp pc d a r = Inr ((None, Some e), d, r1) \<and>
         (\<forall>body m. respond r1 (requests r1) (GET (cp p)) = Inr body \<and>
                    store_children (pc (elems body)) [] = Inr m \<longrightarrow>
            GetChildren cp pc d a r1 =
              Inr ((Some m, None), set_children (Some m) d,
                   r1\<lparr>requests := requests r @ [GET (cp p), GET (cp p)]\<rparr>)) \<and>
         (\<forall>e'. respond r1 (requests r1) (GET (cp p)) = Inl e' \<longrightarrow>
            GetChildren cp pc d a r1 =
              Inr ((None, Some e'), d, r1\<lparr>requests := requests r @ [GET (cp p), GET (cp p)]\<rparr>))"
  using assms by (simp add: GetChildren_def Get_def call_def)

theorem GetChildren_failure_retry_witness:
  "GetChildren id (\<lambda>b. [Some docs_json]) root_item (Auth ''token'') flaky_remote =
     Inr ((None, Some (Err ''timeout'')), root_item, flaky_remote\<lparr>requests := [GET ''/'']\<rparr>) \<and>
   GetChildren id (\<lambda>b. [Some docs_json]) root_item (Auth ''token'')
       (flaky_remote\<lparr>requests := [GET ''/'']\<rparr>) =
     Inr ((Some [(''docs'', docs_item)], None),
          set_children (Some [(''docs'', docs_item)]) root_item,
          flaky_remote\<lparr>requests := [GET ''/'', GET ''/'']\<rparr>)"
proof -
  let ?r1 = "flaky_remote\<lparr>requests := [GET ''/'']\<rparr>"
  have 1: "IsDir root_item"
    by (simp add: IsDir_def Mode_def root_item_def S_IFDIR_def)
  have 2: "children root_item = None"
    by (simp add: root_item_def)
  have 3: "Path root_item = Inr ''/''"
    by (simp add: Path_def root_item_def)
  have 4: "respond flaky_remote (requests flaky_remote) (GET (id ''/'')) = Inl (Err ''timeout'')"
    by (simp add: flaky_remote_def)
  have 5: "?r1 = flaky_remote\<lparr>requests := requests flaky_remote @ [GET (id ''/'')]\<rparr>"
    by (simp add: flaky_remote_def)
  have 6: "respond ?r1 (requests ?r1) (GET (id ''/'')) = Inr nil_bytes"
    by (simp add: flaky_remote_def)
  have 7: "store_children ((\<lambda>b. [Some docs_json]) (elems nil_bytes)) [] = Inr [(''docs'', docs_item)]"
    by (simp add: docs_json_def docs_item_def unmarshal_def zero_DriveItem_def merge_field_def)
  have 8: "requests flaky_remote = []"
    by (simp add: flaky_remote_def)
  from GetChildren_failure_retry [where cp = id and pc = "\<lambda>b. [Some docs_json]"
      and a = "Auth ''token''", OF 1 2 3 4 5] 6 7 8
  show ?thesis
    by simp
qed

text \<open>No call of a pointer-receiver method changes a children map that is non-nil.\<close>

lemma apply_op_children:
  assumes "children d \<noteq> None" and "apply_op cp pc pi x (d, r) = Inr (d', r')"
  shows "children d' = children d"
proof (cases x)
  case (OpSetParent n)
  with assms show ?thesis
    by (auto simp: setParent_def split: sum.splits option.splits)
next
  case (OpGetChildren a)
  with assms show ?thesis
    by (auto simp: GetChildren_def split: sum.splits)
next
  case (OpFetchContent a)
  with assms show ?thesis
    by (auto simp: FetchContent_def setters split: prod.splits sum.splits)
next
  case (OpWrite room dat off)
  with assms show ?thesis
    by (auto simp: Write_def Let_def setters split: sum.splits option.splits if_splits)
next
  case (OpUpload a)
  with assms show ?thesis
    by (auto simp: Upload_def unmarshal_def split: sum.splits option.splits if_splits prod.splits)
next
  case (OpUtimens atime mtime)
  with assms show ?thesis
    by (auto simp: Utimens_def setters)
next
  case (OpTruncate n)
  with assms show ?thesis
    by (auto simp: Truncate_def setters split: sum.splits option.splits)
next
  case OpMode
  with assms show ?thesis
    by (auto simp: Mode_def Let_def)
qed

lemma apply_ops_children:
  assumes "children d \<noteq> None" and "apply_ops cp pc pi xs (d, r) = Inr (d', r')"
  shows "children d' = children d"
  using assms
proof (induction xs arbitrary: d r)
  case Nil
  then show ?case by simp
next
  case (Cons x xs)
  from Cons.prems(2) obtain d1 r1 where
    s: "apply_op cp pc pi x (d, r) = Inr (d1, r1)" and
    t: "apply_ops cp pc pi xs (d1, r1) = Inr (d', r')"
    by (auto split: sum.splits)
  from apply_op_children [OF Cons.prems(1) s] have c: "children d1 = children d" .
  with Cons.prems(1) have "children d1 \<noteq> None"
    by simp
  from Cons.IH [OF this t] c show ?case
    by simp
qed

text \<open>
  C9: an item made by \<open>NewDriveItem\<close> has a non-nil, empty children map, so
  \<open>GetChildren\<close> on it returns at once, without a remote call, from the first call on,
  and still does after any sequence of calls on the item: the remote children of a
  directory created locally are never fetched.
\<close>

theorem NewDriveItem_children_cached:
  assumes "NewDriveItem now name m parent = Inr d"
  shows "children d = Some [] \<and>
         GetChildren cp pc d a r = Inr ((Some [], None), d, r) \<and>
         (\<forall>xs d' r'. apply_ops cp pc pi xs (d, r) = Inr (d', r') \<longrightarrow>
            GetChildren cp pc d' a r' = Inr ((Some [], None), d', r'))"
proof -
  have c: "children d = Some []"
    using assms by (auto simp: NewDriveItem_def split: option.splits)
  have "children d' = Some []" if "apply_ops cp pc pi xs (d, r) = Inr (d', r')" for xs d' r'
    using apply_ops_children [OF _ that] c by simp
  with c show ?thesis
    by (simp add: GetChildren_def)
qed

theorem NewDriveItem_children_cached_witness:
  "NewDriveItem 1 ''new'' 0 (Some root_item) = Inr new_item \<and>
   children new_item = Some [] \<and>
   GetChildren id (\<lambda>b. []) new_item (Auth ''token'') down_remote =
     Inr ((Some [], None), new_item, down_remote) \<and>
   apply_ops id (\<lambda>b. []) (\<lambda>b. (upload_json, None)) [OpWrite 0 [7] 0, OpGetChildren (Auth ''token'')]
       (new_item, down_remote) = Inr (written_item, down_remote) \<and>
   GetChildren id (\<lambda>b. []) written_item (Auth ''token'') down_remote =
     Inr ((Some [], None), written_item, down_remote)"
proof -
  have n: "NewDriveItem 1 ''new'' 0 (Some root_item) = Inr new_item"
    by (simp add: NewDriveItem_def root_item_def new_item_def)
  note t = NewDriveItem_children_cached [OF n, where cp = id and pc = "\<lambda>b. []"
      and pi = "\<lambda>b. (upload_json, None)" and a = "Auth ''token''" and r = down_remote]
  have w: "Write 0 new_item [7] 0 = Inr ((1, OK), written_item)"
    by (simp add: Write_def new_item_def written_item_def nil_bytes_def slice_expr_def cap_def
          len_def wrap64_def append_bytes_def setters)
  have g: "GetChildren id (\<lambda>b. []) written_item (Auth ''token'') down_remote =
      Inr ((children written_item, None), written_item, down_remote)"
    by (simp add: GetChildren_def written_item_def)
  have s: "apply_ops id (\<lambda>b. []) (\<lambda>b. (upload_json, None))
       [OpWrite 0 [7] 0, OpGetChildren (Auth ''token'')] (new_item, down_remote) =
     Inr (written_item, down_remote)"
    by (simp add: w g)
  from t [THEN conjunct2, THEN conjunct2, rule_format, OF s]
  have "GetChildren id (\<lambda>b. []) written_item (Auth ''token'') down_remote =
     Inr ((Some [], None), written_item, down_remote)" .
  with n t s show ?thesis
    by simp
qed

lemma fst_set_map_assign: "fst ` set (map_assign k v m) = insert k (fst ` set m)"
proof (induction m)
  case Nil
  show ?case by simp
next
  case (Cons kv m)
  obtain k' v' where kv: "kv = (k', v')"
    by (cases kv)
  show ?case
  proof (cases "k = k'")
    case True
    then show ?thesis by (simp add: kv)
  next
    case False
    then show ?thesis by (simp add: kv Cons.IH insert_commute)
  qed
qed

lemma distinct_map_assign:
  "distinct (map fst m) \<Longrightarrow> distinct (map fst (map_assign k v m))"
proof (induction m)
  case Nil
  show ?case by simp
next
  case (Cons kv m)
  obtain k' v' where kv: "kv = (k', v')"
    by (cases kv)
  from Cons show ?case
    using fst_set_map_assign [of k v m] by (auto simp: kv)
qed

lemma store_children_distinct:
  assumes "store_children js m = Inr m'" and "distinct (map fst m)"
  shows "distinct (map fst m')"
  using assms
proof (induction js m rule: store_children.induct)
  case (1 m)
  then show ?case by simp
next
  case (2 cs m)
  then show ?case by simp
next
  case (3 j cs m)
  let ?c = "unmarshal j zero_DriveItem"
  from "3.prems"(1) obtain p where p: "Parent ?c = Some p"
    and s: "store_children cs (map_assign (Name ?c) ?c m) = Inr m'"
    by (auto simp: Let_def split: option.splits)
  from "3.IH" [OF refl p s distinct_map_assign [OF "3.prems"(2)]] show ?case .
qed

lemma count_subdirs_eq:
  "count_subdirs m n = n + word_of_nat (length (filter (\<lambda>kv. IsDir (snd kv)) m))"
proof (induction m arbitrary: n)
  case Nil
  show ?case by simp
next
  case (Cons kv m)
  obtain k v where kv: "kv = (k, v)"
    by (cases kv)
  show ?case
    by (simp add: kv Cons.IH)
qed

text \<open>
  C8: \<open>NLink\<close> is 2 plus the number of immediate subdirectories for a directory (none
  when the children map is nil) and 1 for a file; the counter is a \<open>uint32\<close>, so the sum
  is exact below \<open>2 ^ 32\<close>.  A directory with three cached children, two of them
  directories, has \<open>NLink = 4\<close>.
\<close>

theorem NLink_value:
  "NLink d = (if IsDir d then 2 + word_of_nat (length (subdirectories d)) else 1) \<and>
   (children d = None \<longrightarrow> subdirectories d = []) \<and>
   (length (subdirectories d) + 2 < 2 ^ 32 \<longrightarrow>
      unat (NLink d) = (if IsDir d then 2 + length (subdirectories d) else 1))"
proof -
  have v: "NLink d = (if IsDir d then 2 + word_of_nat (length (subdirectories d)) else 1)"
    by (simp add: NLink_def subdirectories_def count_subdirs_eq)
  have n: "children d = None \<longrightarrow> subdirectories d = []"
    by (simp add: subdirectories_def)
  have u: "unat (NLink d) = (if IsDir d then 2 + length (subdirectories d) else 1)"
    if "length (subdirectories d) + 2 < 2 ^ 32"
  proof (cases "IsDir d")
    case True
    have "NLink d = word_of_nat (2 + length (subdirectories d))"
      using v True by simp
    then have "unat (NLink d) = (2 + length (subdirectories d)) mod 2 ^ 32"
      by (simp only: unat_of_nat) simp
    with that True show ?thesis
      by simp
  next
    case False
    with v show ?thesis by simp
  qed
  from v n u show ?thesis
    by blast
qed

theorem NLink_value_witness:
  "IsDir filled_root \<and>
   children filled_root = Some [(''docs'', docs_item), (''pics'', pics_item), (''notes'', file_item)] \<and>
   map fst (subdirectories filled_root) = [''docs'', ''pics''] \<and>
   NLink filled_root = 4 \<and> unat (NLink filled_root) = 4 \<and> NLink file_item = 1"
proof -
  have d: "IsDir filled_root"
    by (simp add: filled_root_def IsDir_def Mode_def root_item_def S_IFDIR_def set_children_def)
  have c: "children filled_root =
      Some [(''docs'', docs_item), (''pics'', pics_item), (''notes'', file_item)]"
    by (simp add: filled_root_def set_children_def)
  have i: "IsDir docs_item" "IsDir pics_item" "\<not> IsDir file_item"
    by (simp_all add: IsDir_def Mode_def docs_item_def pics_item_def file_item_def
          S_IFDIR_def S_IFREG_def)
  have s: "subdirectories filled_root = [(''docs'', docs_item), (''pics'', pics_item)]"
    by (simp add: subdirectories_def c i)
  from NLink_value [of filled_root] NLink_value [of file_item] d i s c show ?thesis
    by simp
qed

section \<open>The dirty flag\<close>

text \<open>\<open>hasChanges\<close> is unexported: decoding a response into an item leaves it as it is.\<close>

lemma unmarshal_hasChanges: "hasChanges (unmarshal j d) = hasChanges d"
  by (simp add: unmarshal_def)

lemma Write_sets_hasChanges:
  assumes "Write room d dat off = Inr (res, d')"
  shows "hasChanges d'"
  using assms by (auto simp: Write_def Let_def setters split: option.splits sum.splits if_splits)

lemma Truncate_sets_hasChanges:
  assumes "Truncate d n = Inr (st, d')"
  shows "hasChanges d'"
  using assms by (auto simp: Truncate_def setters split: option.splits sum.splits)

lemma setParent_hasChanges:
  assumes "setParent d n = Inr d'"
  shows "hasChanges d' = hasChanges d"
  using assms by (auto simp: setParent_def split: option.splits sum.splits)

lemma GetChildren_hasChanges:
  assumes "GetChildren cp pc d a r = Inr (res, d', r')"
  shows "hasChanges d' = hasChanges d"
  using assms
  by (auto simp: GetChildren_def setters split: if_splits sum.splits prod.splits)

lemma FetchContent_hasChanges:
  assumes "FetchContent d a r = (e, d', r')"
  shows "hasChanges d' = hasChanges d"
  using assms by (auto simp: FetchContent_def setters split: sum.splits prod.splits)

lemma Upload_hasChanges:
  assumes "Upload pi d a r = Inr (e, d', r')"
  shows "hasChanges d' = hasChanges d"
  using assms
  by (auto simp: Upload_def unmarshal_hasChanges
      split: if_splits option.splits sum.splits prod.splits)

lemma Mode_hasChanges: "hasChanges (snd (Mode d)) = hasChanges d"
  by (simp add: Mode_def Let_def)

text \<open>No call of a pointer-receiver method clears the flag once it is set.\<close>

lemma apply_op_keeps_dirty:
  assumes "hasChanges d" and "apply_op cp pc pi x (d, r) = Inr (d', r')"
  shows "hasChanges d'"
proof (cases x)
  case (OpSetParent n)
  with assms show ?thesis
    by (auto simp: setParent_hasChanges split: sum.splits)
next
  case (OpGetChildren a)
  with assms show ?thesis
    by (auto simp: GetChildren_hasChanges split: sum.splits)
next
  case (OpFetchContent a)
  with assms show ?thesis
    by (auto simp: FetchContent_hasChanges split: prod.splits)
next
  case (OpWrite room dat off)
  with assms show ?thesis
    by (auto simp: Write_sets_hasChanges split: sum.splits)
next
  case (OpUpload a)
  with assms show ?thesis
    by (auto simp: Upload_hasChanges split: sum.splits)
next
  case (OpUtimens atime mtime)
  with assms show ?thesis
    by (auto simp: Utimens_def setters)
next
  case (OpTruncate n)
  with assms show ?thesis
    by (auto simp: Truncate_sets_hasChanges split: sum.splits)
next
  case OpMode
  with assms show ?thesis
    by (auto simp: Mode_hasChanges)
qed

lemma apply_ops_keeps_dirty:
  assumes "hasChanges d" and "apply_ops cp pc pi xs (d, r) = Inr (d', r')"
  shows "hasChanges d'"
  using assms
proof (induction xs arbitrary: d r)
  case Nil
  then show ?case by simp
next
  case (Cons x xs)
  from Cons.prems(2) obtain d1 r1 where
    s: "apply_op cp pc pi x (d, r) = Inr (d1, r1)" and
    t: "apply_ops cp pc pi xs (d1, r1) = Inr (d', r')"
    by (auto split: sum.splits)
  from apply_op_keeps_dirty [OF Cons.prems(1) s] have "hasChanges d1" .
  from Cons.IH [OF this t] show ?case .
qed

text \<open>The children that \<open>GetChildren\<close> stores are clean.\<close>

lemma set_map_assign: "set (map_assign k v m) \<subseteq> insert (k, v) (set m)"
  by (induction m) (auto split: if_splits)

lemma store_children_clean:
  assumes "store_children js m = Inr m'" and "\<forall>kv \<in> set m. \<not> hasChanges (snd kv)"
  shows "\<forall>kv \<in> set m'. \<not> hasChanges (snd kv)"
  using assms
proof (induction js m rule: store_children.induct)
  case (1 m)
  then show ?case by simp
next
  case (2 cs m)
  then show ?case by simp
next
  case (3 j cs m)
  let ?c = "unmarshal j zero_DriveItem"
  have c: "\<not> hasChanges ?c"
    by (simp add: unmarshal_hasChanges zero_DriveItem_def)
  have a: "\<forall>kv \<in> set (map_assign k ?c m). \<not> hasChanges (snd kv)" for k
    using "3.prems"(2) c set_map_assign [of k ?c m] by auto
  from "3.prems"(1) obtain p where p: "Parent ?c = Some p"
    and s: "store_children cs (map_assign (Name ?c) ?c m) = Inr m'"
    by (auto simp: Let_def split: option.splits)
  from "3.IH" [OF refl p s a] show ?case .
qed

text \<open>
  C4: \<open>hasChanges\<close> is false for every item created by decoding a remote response (an
  item decoded into the zero value, and each child a listing stores), is true after any
  \<open>Write\<close> or \<open>Truncate\<close> that returns, and once true stays true under every sequence of
  calls on the item: \<open>Upload\<close> decodes the response into the item without touching the
  flag, so only an item decoded afresh is clean again.
\<close>

theorem hasChanges_lifecycle:
  "\<not> hasChanges (unmarshal j zero_DriveItem) \<and>
   (children d = None \<and> GetChildren cp pc d a r = Inr ((Some m, e), d0, r0) \<longrightarrow>
      (\<forall>kv \<in> set m. \<not> hasChanges (snd kv))) \<and>
   (Write room d dat off = Inr (res, d1) \<longrightarrow> hasChanges d1) \<and>
   (Truncate d n = Inr (st, d2) \<longrightarrow> hasChanges d2) \<and>
   (hasChanges d \<and> apply_ops cp pc pi xs (d, r) = Inr (d3, r3) \<longrightarrow> hasChanges d3)"
proof -
  have 1: "\<not> hasChanges (unmarshal j zero_DriveItem)"
    by (simp add: unmarshal_hasChanges zero_DriveItem_def)
  have 2: "\<forall>kv \<in> set m. \<not> hasChanges (snd kv)"
    if "children d = None" and "GetChildren cp pc d a r = Inr ((Some m, e), d0, r0)"
  proof -
    from that obtain js where "store_children js [] = Inr m"
      by (auto simp: GetChildren_def split: if_splits sum.splits prod.splits)
    from store_children_clean [OF this] show ?thesis
      by simp
  qed
  from 1 2 Write_sets_hasChanges Truncate_sets_hasChanges apply_ops_keeps_dirty
  show ?thesis
    by blast
qed

theorem hasChanges_lifecycle_witness:
  "\<not> hasChanges (unmarshal docs_json zero_DriveItem) \<and>
   Write 0 new_item [7] 0 = Inr ((1, OK), written_item) \<and> hasChanges written_item \<and>
   Truncate file_item 2 = Inr (OK, set_hasChanges True (set_Size 2 (set_data (Some (Slice [97, 98] [99])) file_item))) \<and>
   hasChanges (set_hasChanges True (set_Size 2 (set_data (Some (Slice [97, 98] [99])) file_item))) \<and>
   apply_ops id (\<lambda>b. []) (\<lambda>b. (upload_json, None)) [OpUpload (Auth ''token''), OpMode]
       (written_item, up_remote) =
     Inr (snd (Mode uploaded_item), up_remote\<lparr>requests := [PUT ''/me/drive/items/rootid:/new:/content'' [7]]\<rparr>) \<and>
   hasChanges (snd (Mode uploaded_item))"
proof -
  have w: "Write 0 new_item [7] 0 = Inr ((1, OK), written_item)"
    by (simp add: Write_def new_item_def written_item_def nil_bytes_def slice_expr_def cap_def
          len_def wrap64_def append_bytes_def setters)
  have t: "Truncate file_item 2 =
      Inr (OK, set_hasChanges True (set_Size 2 (set_data (Some (Slice [97, 98] [99])) file_item)))"
    by (simp add: Truncate_def file_item_def slice_expr_def cap_def)
  have u: "Upload (\<lambda>b. (upload_json, None)) written_item (Auth ''token'') up_remote =
      Inr (None, uploaded_item,
           up_remote\<lparr>requests := [PUT ''/me/drive/items/rootid:/new:/content'' [7]]\<rparr>)"
    by (simp add: Upload_def written_item_def uploaded_item_def upload_json_def unmarshal_def
          merge_field_def Put_def call_def up_remote_def)
  have s: "apply_ops id (\<lambda>b. []) (\<lambda>b. (upload_json, None)) [OpUpload (Auth ''token''), OpMode]
       (written_item, up_remote) =
     Inr (snd (Mode uploaded_item),
          up_remote\<lparr>requests := [PUT ''/me/drive/items/rootid:/new:/content'' [7]]\<rparr>)"
    by (simp add: u)
  note rest = hasChanges_lifecycle [THEN conjunct2, THEN conjunct2]
  have c: "\<not> hasChanges (unmarshal docs_json zero_DriveItem)"
    by (rule hasChanges_lifecycle [THEN conjunct1])
  have hw: "hasChanges written_item"
    by (rule rest [THEN conjunct1, THEN mp, OF w])
  have ht: "hasChanges (set_hasChanges True (set_Size 2 (set_data (Some (Slice [97, 98] [99])) file_item)))"
    by (rule rest [THEN conjunct2, THEN conjunct1, THEN mp, OF t])
  have hs: "hasChanges (snd (Mode uploaded_item))"
    by (rule rest [THEN conjunct2, THEN conjunct2, THEN mp, OF conjI, OF hw s])
  from c w hw t ht s hs show ?thesis
    by blast
qed

section \<open>Mkdir\<close>

text \<open>
  The leftmost match of \<open>\w+$\<close> starts where the longest run of word characters at the
  end of the text starts; there is no match when that run is empty.
\<close>

lemma FindStringIndex_all:
  "list_all is_word s \<Longrightarrow> FindStringIndex s = (if s = [] then None else Some 0)"
  by (cases s) simp_all

lemma FindStringIndex_trailing:
  "FindStringIndex s =
     (if takeWhile is_word (rev s) = [] then None
      else Some (length s - length (takeWhile is_word (rev s))))"
proof (induction s)
  case Nil
  show ?case by simp
next
  case (Cons c cs)
  show ?case
  proof (cases "list_all is_word (c # cs)")
    case True
    then have tw: "takeWhile is_word (rev cs @ [c]) = rev cs @ [c]"
      by (simp add: list_all_iff)
    show ?thesis
      using True by (simp add: tw)
  next
    case False
    show ?thesis
    proof (cases "list_all is_word cs")
      case True
      with False have c: "\<not> is_word c"
        by simp
      from True have "takeWhile is_word (rev cs @ [c]) = rev cs"
        using c by (simp add: takeWhile_tail list_all_iff)
      with False True show ?thesis
        by (simp add: FindStringIndex_all)
    next
      case nall: False
      then obtain x where x: "x \<in> set (rev cs)" "\<not> is_word x"
        by (auto simp: list_all_iff)
      then have t: "takeWhile is_word (rev cs @ [c]) = takeWhile is_word (rev cs)"
        by (rule takeWhile_append1)
      have "length (takeWhile is_word (rev cs)) \<le> length cs"
        using length_takeWhile_le [of is_word "rev cs"] by simp
      with False Cons.IH t show ?thesis
        by (auto simp: Suc_diff_le)
    qed
  qed
qed

text \<open>
  C10: with \<open>p\<close> the target path after \<open>/\<close> is put in front and at most one trailing
  slash is removed, \<open>Mkdir\<close> takes as the new leaf name the longest run of word
  characters at the end of \<open>p\<close> and as the parent what precedes it, and sends one create
  request for that pair.  This needs \<open>p\<close> to end in a word character: otherwise the
  regexp has no match, indexing its nil result panics, and \<open>Mkdir\<close> does not return.
\<close>

theorem Mkdir_split:
  assumes "p = (if last (''/'' @ name) = CHR ''/'' then butlast (''/'' @ name) else ''/'' @ name)"
    and "child = rev (takeWhile is_word (rev p))"
    and "parent = take (length p - length child) p"
  shows "(p \<noteq> [] \<and> is_word (last p) \<longrightarrow>
            child \<noteq> [] \<and> list_all is_word child \<and> parent @ child = p \<and>
            (parent \<noteq> [] \<longrightarrow> \<not> is_word (last parent)) \<and>
            Mkdir cp a name m r =
              (case Post (cp parent) a (NewFolderPost child) r of
                 (Inl e, r') \<Rightarrow> Inr (EREMOTEIO, r')
               | (Inr resp, r') \<Rightarrow> Inr (OK, r'))) \<and>
         (\<not> (p \<noteq> [] \<and> is_word (last p)) \<longrightarrow> Mkdir cp a name m r = Inl IndexOutOfRange)"
proof -
  let ?t = "takeWhile is_word (rev p)"
  define q where "q = rev (dropWhile is_word (rev p))"
  have e: "?t = [] \<longleftrightarrow> \<not> (p \<noteq> [] \<and> is_word (last p))"
    by (cases p rule: rev_cases) (auto simp: takeWhile_eq_Nil_iff)
  have l: "length child = length ?t"
    using assms(2) by simp
  have "rev (?t @ dropWhile is_word (rev p)) = p"
    by (simp only: takeWhile_dropWhile_id rev_rev_ident)
  then have "rev (dropWhile is_word (rev p)) @ rev ?t = p"
    by (simp only: rev_append)
  then have s: "p = q @ child"
    unfolding q_def assms(2) by (rule sym)
  then have "length p = length q + length child"
    by simp
  then have lq: "length p - length child = length q"
    by simp
  have pa: "parent = q"
    unfolding assms(3) lq by (simp add: s)
  have d: "drop (length p - length child) p = child"
    unfolding lq by (simp add: s)
  have mx: "\<not> is_word (last parent)" if "parent \<noteq> []"
  proof -
    from that pa have "dropWhile is_word (rev p) \<noteq> []"
      by (simp add: q_def)
    then have "\<not> is_word (hd (dropWhile is_word (rev p)))"
      by (rule hd_dropWhile)
    with that pa show ?thesis
      by (simp add: q_def last_rev)
  qed
  have w: "list_all is_word child"
    using assms(2) by (auto simp: list_all_iff dest: set_takeWhileD)
  have M: "Mkdir cp a name m r =
      (case FindStringIndex p of
         None \<Rightarrow> Inl IndexOutOfRange
       | Some split \<Rightarrow>
           (case Post (cp (take split p)) a (NewFolderPost (drop split p)) r of
              (Inl e, r') \<Rightarrow> Inr (EREMOTEIO, r')
            | (Inr resp, r') \<Rightarrow> Inr (OK, r')))"
    unfolding Mkdir_def Let_def assms(1) by simp
  show ?thesis
  proof (cases "p \<noteq> [] \<and> is_word (last p)")
    case True
    with e have ne: "?t \<noteq> []"
      by simp
    then have f: "FindStringIndex p = Some (length p - length child)"
      using l by (simp add: FindStringIndex_trailing)
    have c: "child \<noteq> []"
      using ne assms(2) by simp
    have "Mkdir cp a name m r =
        (case Post (cp parent) a (NewFolderPost child) r of
           (Inl e, r') \<Rightarrow> Inr (EREMOTEIO, r')
         | (Inr resp, r') \<Rightarrow> Inr (OK, r'))"
      using M f d assms(3) by simp
    with True c w s pa mx show ?thesis
      by blast
  next
    case False
    with e have "FindStringIndex p = None"
      by (simp add: FindStringIndex_trailing)
    with False M show ?thesis
      by auto
  qed
qed

theorem Mkdir_split_witness:
  "Mkdir id (Auth ''token'') ''docs/new_dir/'' 0 up_remote =
     Inr (OK, up_remote\<lparr>requests := [POST ''/docs/'' (NewFolderPost ''new_dir'')]\<rparr>) \<and>
   Mkdir id (Auth ''token'') ''docs/my-dir'' 0 up_remote =
     Inr (OK, up_remote\<lparr>requests := [POST ''/docs/my-'' (NewFolderPost ''dir'')]\<rparr>) \<and>
   Mkdir id (Auth ''token'') ''docs/v1.'' 0 up_remote = Inl IndexOutOfRange"
proof -
  have 1: "''/docs/new_dir'' =
      (if last (''/'' @ ''docs/new_dir/'') = CHR ''/'' then butlast (''/'' @ ''docs/new_dir/'')
       else ''/'' @ ''docs/new_dir/'')"
    by simp
  have 2: "''new_dir'' = rev (takeWhile is_word (rev ''/docs/new_dir''))"
    by (simp add: is_word_def)
  have 3: "''/docs/my-dir'' =
      (if last (''/'' @ ''docs/my-dir'') = CHR ''/'' then butlast (''/'' @ ''docs/my-dir'')
       else ''/'' @ ''docs/my-dir'')"
    by simp
  have 4: "''dir'' = rev (takeWhile is_word (rev ''/docs/my-dir''))"
    by (simp add: is_word_def)
  have 5: "''/docs/v1.'' =
      (if last (''/'' @ ''docs/v1.'') = CHR ''/'' then butlast (''/'' @ ''docs/v1.'')
       else ''/'' @ ''docs/v1.'')"
    by simp
  have 6: "[] = rev (takeWhile is_word (rev ''/docs/v1.''))"
    by (simp add: is_word_def)
  have a: "Mkdir id (Auth ''token'') ''docs/new_dir/'' 0 up_remote =
     Inr (OK, up_remote\<lparr>requests := [POST ''/docs/'' (NewFolderPost ''new_dir'')]\<rparr>)"
    using Mkdir_split [OF 1 2 refl, where cp = id and a = "Auth ''token''" and m = 0 and r = up_remote]
    by (simp add: is_word_def Post_def call_def up_remote_def)
  have b: "Mkdir id (Auth ''token'') ''docs/my-dir'' 0 up_remote =
     Inr (OK, up_remote\<lparr>requests := [POST ''/docs/my-'' (NewFolderPost ''dir'')]\<rparr>)"
    using Mkdir_split [OF 3 4 refl, where cp = id and a = "Auth ''token''" and m = 0 and r = up_remote]
    by (simp add: is_word_def Post_def call_def up_remote_def)
  have c: "Mkdir id (Auth ''token'') ''docs/v1.'' 0 up_remote = Inl IndexOutOfRange"
    using Mkdir_split [OF 5 6 refl, where cp = id and a = "Auth ''token''" and m = 0 and r = up_remote]
    by (simp add: is_word_def)
  from a b c show ?thesis
    by blast
qed

section \<open>Rmdir\<close>

text \<open>Whenever the lookup of the path fails, \<open>Rmdir\<close> returns \<open>EREMOTEIO\<close>.\<close>

lemma Rmdir_lookup_failure:
  assumes "GetItem (''/'' @ name) a r = (Inl e, r1)"
  shows "Rmdir GetItem a name r = (EREMOTEIO, r1)"
  using assms by (simp add: Rmdir_def)

text \<open>
  C7: when \<open>Rmdir\<close> is called on a path whose item cannot be resolved, the status is
  the "no such entry" one (\<open>ENOENT\<close>).  The code returns \<open>EREMOTEIO\<close> in that branch,
  where \<open>GetAttr\<close>, \<open>OpenDir\<close> and \<open>Open\<close> return \<open>ENOENT\<close> for the same failed lookup.
\<close>

theorem Rmdir_unresolved_is_EREMOTEIO:
  "Rmdir (\<lambda>path a r. (Inl (Err ''item not found''), r)) (Auth ''token'') ''missing'' up_remote =
     (EREMOTEIO, up_remote)"
  by (simp add: Rmdir_def)

end
